theory Spec2Isabelle
  imports Main
begin

section \<open>base8x: base-85 to base-95 binary/ASCII conversion\<close>

text \<open>
  A shallow embedding of \<^verbatim>\<open>base8x.py\<close>. The module is Python 2: a \<^verbatim>\<open>str\<close> is a
  sequence of 8-bit characters and serves both as text and as binary data, so both are
  modelled as \<^typ>\<open>string\<close> (a list of \<^typ>\<open>char\<close>, each one byte); \<^verbatim>\<open>ord\<close> is
  \<^const>\<open>of_char\<close> and \<^verbatim>\<open>chr\<close> is \<^const>\<open>char_of\<close>. Python integers are unbounded;
  the values computed here (ordinals, lengths, sums of products of those) are never
  negative and are modelled as \<^typ>\<open>nat\<close>. The test \<^verbatim>\<open>stride <= 0\<close> and the slice bound
  \<^verbatim>\<open>outchunksize - npadding\<close>, whose operands are parameters, are computed in
  \<^typ>\<open>int\<close>. Generators are consumed completely by \<^verbatim>\<open>"".join\<close>, so a generator is
  modelled by the list of items it yields, and an exception raised while it runs by the
  error value returned in place of that list.
\<close>

subsection \<open>Errors\<close>

text \<open>
  The module raises \<^verbatim>\<open>ValueError\<close> with four different messages; each message is one
  constructor, carrying the values the message is formatted with. The remaining
  constructors stand for the exceptions of the Python runtime that the code could meet
  (\<^verbatim>\<open>struct.error\<close>, \<^verbatim>\<open>IndexError\<close>, \<^verbatim>\<open>ZeroDivisionError\<close>).
\<close>

datatype error =
    InvalidAlphabet  \<comment> \<open>\<^verbatim>\<open>ValueError("Invalid input alphabet")\<close>\<close>
  | InvalidParameter  \<comment> \<open>\<^verbatim>\<open>ValueError("Stride parameter too small")\<close>\<close>
  | IllegalCharacter string char nat nat
      \<comment> \<open>sequence, character, \<^verbatim>\<open>ord\<close> of the character, position in the sequence\<close>
  | IllegalSequence string nat  \<comment> \<open>sequence, value\<close>
  | StructError
  | IndexError
  | ZeroDivisionError

subsection \<open>Module constant\<close>

definition MAXVAL :: nat where
  "MAXVAL = 2 ^ 32 - 1"

subsection \<open>\<^verbatim>\<open>_chunkby\<close>\<close>

text \<open>
  The \<^verbatim>\<open>for\<close> loop of \<^verbatim>\<open>_chunkby\<close> with its local state \<^verbatim>\<open>tmp\<close>, \<^verbatim>\<open>count\<close>; the first
  equation is the code after the loop. \<^verbatim>\<open>count\<close> starts at 0 and is reset when it
  reaches \<^verbatim>\<open>stride\<close>, so it is below \<^verbatim>\<open>stride\<close> where \<^verbatim>\<open>stride - count\<close> is computed
  and the subtraction on \<^typ>\<open>nat\<close> is the one of the code.
\<close>

fun chunkby_loop :: "'a list \<Rightarrow> nat \<Rightarrow> 'a option \<Rightarrow> 'a list \<Rightarrow> nat \<Rightarrow> ('a list \<times> nat) list" where
  "chunkby_loop [] stride padding tmp count =
     (if count \<noteq> 0 then
        (let npadding = stride - count in
         [(case padding of
             Some p \<Rightarrow> tmp @ replicate npadding p
           | None \<Rightarrow> tmp, npadding)])
      else [])"
| "chunkby_loop (item # seq) stride padding tmp count =
     (let tmp' = tmp @ [item]; count' = count + 1 in
      if count' = stride then (tmp', 0) # chunkby_loop seq stride padding [] 0
      else chunkby_loop seq stride padding tmp' count')"

definition chunkby :: "'a list \<Rightarrow> int \<Rightarrow> 'a option \<Rightarrow> error + ('a list \<times> nat) list" where
  "chunkby seq stride padding =
     (if stride \<le> 0 then Inl InvalidParameter
      else Inr (chunkby_loop seq (nat stride) padding [] 0))"

subsection \<open>\<^verbatim>\<open>_validate_alphabet\<close>\<close>

fun validate_loop :: "string \<Rightarrow> char set \<Rightarrow> string \<Rightarrow> string option" where
  "validate_loop [] seen accept =
     (if \<not> (85 \<le> length accept \<and> length accept \<le> 95) then None else Some accept)"
| "validate_loop (item # seq) seen accept =
     (if item \<in> seen \<or> \<not> (32 \<le> (of_char item :: nat) \<and> (of_char item :: nat) \<le> 126)
      then None
      else validate_loop seq (insert item seen) (accept @ [item]))"

definition validate_alphabet :: "string \<Rightarrow> string option" where
  "validate_alphabet seq = validate_loop seq {} []"

subsection \<open>\<^verbatim>\<open>_codec_generator_factory\<close>\<close>

text \<open>Python's \<^verbatim>\<open>xs[:k]\<close>: a negative \<^verbatim>\<open>k\<close> counts from the end.\<close>

definition slice_to :: "'a list \<Rightarrow> int \<Rightarrow> 'a list" where
  "slice_to xs k = (if k < 0 then take (nat (int (length xs) + k)) xs else take (nat k) xs)"

text \<open>
  The body of the \<^verbatim>\<open>for chunk, npadding in chunked\<close> loop of \<^verbatim>\<open>codec_gen\<close>. The generator
  is lazy: the first chunk that raises ends the run, whatever the later chunks hold.
\<close>

fun codec_loop ::
  "int \<Rightarrow> ('a list \<Rightarrow> error + nat) \<Rightarrow> (nat \<Rightarrow> error + 'b list) \<Rightarrow> ('a list \<times> nat) list
    \<Rightarrow> error + 'b list list" where
  "codec_loop outchunksize ingroup2num num2outgroup [] = Inr []"
| "codec_loop outchunksize ingroup2num num2outgroup ((chunk, npadding) # chunked) =
     (case ingroup2num chunk of
        Inl e \<Rightarrow> Inl e
      | Inr val \<Rightarrow>
          (case num2outgroup val of
             Inl e \<Rightarrow> Inl e
           | Inr out \<Rightarrow>
               (case codec_loop outchunksize ingroup2num num2outgroup chunked of
                  Inl e \<Rightarrow> Inl e
                | Inr outs \<Rightarrow> Inr (slice_to out (outchunksize - int npadding) # outs))))"

definition codec_gen ::
  "int \<Rightarrow> int \<Rightarrow> 'a \<Rightarrow> ('a list \<Rightarrow> error + nat) \<Rightarrow> (nat \<Rightarrow> error + 'b list) \<Rightarrow> 'a list
    \<Rightarrow> error + 'b list list" where
  "codec_gen inchunksize outchunksize padchar ingroup2num num2outgroup inputseq =
     (case chunkby inputseq inchunksize (Some padchar) of
        Inl e \<Rightarrow> Inl e
      | Inr chunked \<Rightarrow> codec_loop outchunksize ingroup2num num2outgroup chunked)"

subsection \<open>\<^verbatim>\<open>Base8xCodec\<close>\<close>

record codec =
  alphabet :: string
  radix :: nat
  ordmap :: "char \<rightharpoonup> nat"
  powersofradix :: "nat list"
  powersenum :: "(nat \<times> nat) list"

text \<open>
  Python's \<^verbatim>\<open>dict\<close> of a sequence of pairs stores them in order, a later pair replacing
  an earlier one with the same key.
\<close>

fun dict_update :: "('k \<rightharpoonup> 'v) \<Rightarrow> ('k \<times> 'v) list \<Rightarrow> ('k \<rightharpoonup> 'v)" where
  "dict_update m [] = m"
| "dict_update m ((k, v) # kvs) = dict_update (m(k \<mapsto> v)) kvs"

definition dict :: "('k \<times> 'v) list \<Rightarrow> ('k \<rightharpoonup> 'v)" where
  "dict kvs = dict_update Map.empty kvs"

text \<open>
  The assignments of \<^verbatim>\<open>__init__\<close> after the validation; \<^verbatim>\<open>xrange(4, -1, -1)\<close> is
  4, 3, 2, 1, 0.
\<close>

definition init_fields :: "string \<Rightarrow> codec" where
  "init_fields a =
     (let r = length a;
          pw = map (\<lambda>p. r ^ p) [4, 3, 2, 1, 0]
      in \<lparr>alphabet = a,
          radix = r,
          ordmap = dict (map (\<lambda>(idx, chr). (chr, idx)) (enumerate 0 a)),
          powersofradix = pw,
          powersenum = enumerate 0 pw\<rparr>)"

definition Base8xCodec :: "string \<Rightarrow> error + codec" where
  "Base8xCodec alphabet_in =
     (case validate_alphabet alphabet_in of
        None \<Rightarrow> Inl InvalidAlphabet
      | Some a \<Rightarrow> Inr (init_fields a))"

text \<open>\<^verbatim>\<open>struct.unpack(">1I", seq)\<close>: exactly four bytes, big-endian, unsigned.\<close>

fun get_num_by_seq_enc :: "string \<Rightarrow> error + nat" where
  "get_num_by_seq_enc [b0, b1, b2, b3] =
     Inr (((of_char b0 * 256 + of_char b1) * 256 + of_char b2) * 256 + of_char b3)"
| "get_num_by_seq_enc seq = Inl StructError"

fun encode_quartet_loop :: "codec \<Rightarrow> nat \<Rightarrow> nat list \<Rightarrow> string \<Rightarrow> error + string" where
  "encode_quartet_loop c num [] enc = Inr enc"
| "encode_quartet_loop c num (offset # offsets) enc =
     (if offset = 0 \<or> radix c = 0 then Inl ZeroDivisionError
      else
        (let idx = (num div offset) mod radix c in
         if length (alphabet c) \<le> idx then Inl IndexError
         else encode_quartet_loop c num offsets (enc @ [alphabet c ! idx])))"

definition encode_quartet :: "codec \<Rightarrow> nat \<Rightarrow> error + string" where
  "encode_quartet c num = encode_quartet_loop c num (powersofradix c) []"

fun get_num_by_seq_dec_loop :: "codec \<Rightarrow> string \<Rightarrow> (nat \<times> nat) list \<Rightarrow> nat \<Rightarrow> error + nat" where
  "get_num_by_seq_dec_loop c seq [] val = Inr val"
| "get_num_by_seq_dec_loop c seq ((i, offset) # rest) val =
     (if length seq \<le> i then Inl IndexError
      else
        (let char = seq ! i in
         case ordmap c char of
           None \<Rightarrow> Inl (IllegalCharacter seq char (of_char char) i)
         | Some pos \<Rightarrow> get_num_by_seq_dec_loop c seq rest (val + pos * offset)))"

definition get_num_by_seq_dec :: "codec \<Rightarrow> string \<Rightarrow> error + nat" where
  "get_num_by_seq_dec c seq =
     (case get_num_by_seq_dec_loop c seq (powersenum c) 0 of
        Inl e \<Rightarrow> Inl e
      | Inr val \<Rightarrow> if val > MAXVAL then Inl (IllegalSequence seq val) else Inr val)"

text \<open>\<^verbatim>\<open>struct.pack(">1I", num)\<close>: raises unless the number fits 32 bits.\<close>

definition decode_quintet :: "nat \<Rightarrow> error + string" where
  "decode_quintet num =
     (if num > 4294967295 then Inl StructError
      else Inr [char_of (num div 16777216 mod 256), char_of (num div 65536 mod 256),
                char_of (num div 256 mod 256), char_of (num mod 256)])"

definition make_encode_gen :: "codec \<Rightarrow> string \<Rightarrow> error + string list" where
  "make_encode_gen c = codec_gen 4 5 (char_of (0 :: nat)) get_num_by_seq_enc (encode_quartet c)"

text \<open>\<^verbatim>\<open>self._alphabet[-1]\<close> raises on an empty string.\<close>

definition make_decode_gen :: "codec \<Rightarrow> string \<Rightarrow> error + string list" where
  "make_decode_gen c inputseq =
     (if alphabet c = [] then Inl IndexError
      else codec_gen 5 4 (last (alphabet c)) (get_num_by_seq_dec c) decode_quintet inputseq)"

definition encode :: "codec \<Rightarrow> string \<Rightarrow> error + string" where
  "encode c text = (case make_encode_gen c text of Inl e \<Rightarrow> Inl e | Inr groups \<Rightarrow> Inr (concat groups))"

definition decode :: "codec \<Rightarrow> string \<Rightarrow> error + string" where
  "decode c text = (case make_decode_gen c text of Inl e \<Rightarrow> Inl e | Inr groups \<Rightarrow> Inr (concat groups))"

subsection \<open>The codecs the module builds\<close>

text \<open>The argument of the module's \<^verbatim>\<open>z85codec = Base8xCodec("0123...")\<close>.\<close>

definition z85_alphabet :: string where
  "z85_alphabet =
     ''0123456789abcdefghijklmnopqrstuvwxyz'' @
     ''ABCDEFGHIJKLMNOPQRSTUVWXYZ'' @
     ''.-:+=^!/*?&<>()[]{}@%$#''"

definition z85codec :: "error + codec" where
  "z85codec = Base8xCodec z85_alphabet"

text \<open>The doctest's \<^verbatim>\<open>adobe85codec = Base8xCodec(chr(x) for x in xrange(33, 33 + 85))\<close>.\<close>

definition adobe85_alphabet :: string where
  "adobe85_alphabet = map char_of [33 ..< 33 + 85 :: nat]"

definition adobe85codec :: "error + codec" where
  "adobe85codec = Base8xCodec adobe85_alphabet"

section \<open>Properties\<close>

subsection \<open>Induction over groups of four and of five\<close>

lemma quartet_induct [case_names Nil One Two Three Quartet]:
  assumes "P []" and "\<And>a. P [a]" and "\<And>a b. P [a, b]" and "\<And>a b c. P [a, b, c]"
    and "\<And>a b c d rest. P rest \<Longrightarrow> P (a # b # c # d # rest)"
  shows "P xs"
proof (induction "length xs" arbitrary: xs rule: less_induct)
  case less
  show ?case
  proof (cases xs)
    case Nil
    then show ?thesis using assms(1) by simp
  next
    case (Cons a xs1)
    note c1 = this
    show ?thesis
    proof (cases xs1)
      case Nil
      then show ?thesis using c1 assms(2) by simp
    next
      case (Cons b xs2)
      note c2 = this
      show ?thesis
      proof (cases xs2)
        case Nil
        then show ?thesis using c1 c2 assms(3) by simp
      next
        case (Cons c xs3)
        note c3 = this
        show ?thesis
        proof (cases xs3)
          case Nil
          then show ?thesis using c1 c2 c3 assms(4) by simp
        next
          case (Cons d rest)
          have "P rest" using less [of rest] c1 c2 c3 Cons by simp
          then show ?thesis using c1 c2 c3 Cons assms(5) by simp
        qed
      qed
    qed
  qed
qed

lemma quintet_induct [case_names Nil One Two Three Four Quintet]:
  assumes "P []" and "\<And>a. P [a]" and "\<And>a b. P [a, b]" and "\<And>a b c. P [a, b, c]"
    and "\<And>a b c d. P [a, b, c, d]"
    and "\<And>a b c d e rest. P rest \<Longrightarrow> P (a # b # c # d # e # rest)"
  shows "P xs"
proof (induction "length xs" arbitrary: xs rule: less_induct)
  case less
  consider "xs = []" | a where "xs = [a]" | a b where "xs = [a, b]" | a b c where "xs = [a, b, c]"
    | a b c d where "xs = [a, b, c, d]" | a b c d e rest where "xs = a # b # c # d # e # rest"
    by (metis list.exhaust)
  then show ?case
  proof cases
    case (6 a b c d e rest)
    have "P rest" using less [of rest] 6 by simp
    then show ?thesis using 6 assms(6) by simp
  qed (use assms in simp_all)
qed

subsection \<open>Alphabet validation and the reverse map\<close>

lemma validate_loop_Some_iff:
  "validate_loop seq seen accept = Some r \<longleftrightarrow>
     distinct seq \<and> set seq \<inter> seen = {} \<and>
     (\<forall>ch\<in>set seq. 32 \<le> (of_char ch :: nat) \<and> (of_char ch :: nat) \<le> 126) \<and>
     85 \<le> length accept + length seq \<and> length accept + length seq \<le> 95 \<and> r = accept @ seq"
  by (induction seq arbitrary: seen accept) auto

lemma validate_alphabet_Some_iff:
  "validate_alphabet seq = Some r \<longleftrightarrow>
     distinct seq \<and> (\<forall>ch\<in>set seq. 32 \<le> (of_char ch :: nat) \<and> (of_char ch :: nat) \<le> 126) \<and>
     85 \<le> length seq \<and> length seq \<le> 95 \<and> r = seq"
  by (simp add: validate_alphabet_def validate_loop_Some_iff)

lemma dict_update_enumerate_notin:
  "ch \<notin> set xs \<Longrightarrow> dict_update m (map (\<lambda>(idx, chr). (chr, idx)) (enumerate n xs)) ch = m ch"
  by (induction xs arbitrary: m n) auto

lemma dict_update_enumerate_nth:
  "distinct xs \<Longrightarrow> i < length xs \<Longrightarrow>
     dict_update m (map (\<lambda>(idx, chr). (chr, idx)) (enumerate n xs)) (xs ! i) = Some (n + i)"
proof (induction xs arbitrary: m n i)
  case Nil
  then show ?case by simp
next
  case (Cons x xs)
  show ?case
  proof (cases i)
    case 0
    then show ?thesis using Cons.prems by (simp add: dict_update_enumerate_notin)
  next
    case (Suc j)
    have "dict_update (m(x \<mapsto> n)) (map (\<lambda>(idx, chr). (chr, idx)) (enumerate (Suc n) xs)) (xs ! j)
            = Some (Suc n + j)"
      using Cons.prems Suc by (intro Cons.IH) auto
    then show ?thesis using Suc by simp
  qed
qed


lemma init_fields_simps:
  "alphabet (init_fields a) = a"
  "radix (init_fields a) = length a"
  "ordmap (init_fields a) = dict (map (\<lambda>(idx, chr). (chr, idx)) (enumerate 0 a))"
  "powersofradix (init_fields a) = [length a ^ 4, length a ^ 3, length a ^ 2, length a, 1]"
  "powersenum (init_fields a) =
     [(0, length a ^ 4), (1, length a ^ 3), (2, length a ^ 2), (3, length a), (4, 1)]"
  by (simp_all add: init_fields_def Let_def)

lemma ordmap_nth:
  "distinct a \<Longrightarrow> i < length a \<Longrightarrow> ordmap (init_fields a) (a ! i) = Some i"
  using dict_update_enumerate_nth [of a i Map.empty 0] by (simp add: init_fields_simps dict_def)

lemma ordmap_notin:
  "ch \<notin> set a \<Longrightarrow> ordmap (init_fields a) ch = None"
  using dict_update_enumerate_notin [of ch a Map.empty 0] by (simp add: init_fields_simps dict_def)

lemma validate_alphabet_eq:
  "validate_alphabet seq =
     (if distinct seq \<and> (\<forall>ch\<in>set seq. 32 \<le> (of_char ch :: nat) \<and> (of_char ch :: nat) \<le> 126) \<and>
         85 \<le> length seq \<and> length seq \<le> 95
      then Some seq else None)"
proof (cases "validate_alphabet seq")
  case None
  then show ?thesis
    using validate_alphabet_Some_iff [of seq seq] by auto
next
  case (Some r)
  then show ?thesis
    using validate_alphabet_Some_iff [of seq r] by auto
qed

lemma Base8xCodec_Inr_iff:
  "Base8xCodec a = Inr c \<longleftrightarrow>
     c = init_fields a \<and> distinct a \<and>
     (\<forall>ch\<in>set a. 32 \<le> (of_char ch :: nat) \<and> (of_char ch :: nat) \<le> 126) \<and>
     85 \<le> length a \<and> length a \<le> 95"
  by (auto simp: Base8xCodec_def validate_alphabet_eq)


subsection \<open>One group of \<^verbatim>\<open>encode\<close> and of \<^verbatim>\<open>decode\<close>\<close>

lemma slice_to_nonneg: "0 \<le> k \<Longrightarrow> slice_to xs k = take (nat k) xs"
  by (simp add: slice_to_def)

lemma replicate_small:
  "replicate 1 x = [x]" "replicate 2 x = [x, x]" "replicate 3 x = [x, x, x]"
  "replicate 4 x = [x, x, x, x]"
  by (simp_all add: numeral_eq_Suc)

lemma encode_Nil: "encode c [] = Inr []"
  by (simp add: encode_def make_encode_gen_def codec_gen_def chunkby_def)

lemma encode_One:
  "encode c [b0] =
     (case encode_quartet c (((of_char b0 * 256 + 0) * 256 + 0) * 256 + 0) of
        Inl e \<Rightarrow> Inl e | Inr out \<Rightarrow> Inr (take 2 out))"
  by (simp add: encode_def make_encode_gen_def codec_gen_def chunkby_def Let_def slice_to_nonneg
      replicate_small split: sum.splits)

lemma encode_Two:
  "encode c [b0, b1] =
     (case encode_quartet c (((of_char b0 * 256 + of_char b1) * 256 + 0) * 256 + 0) of
        Inl e \<Rightarrow> Inl e | Inr out \<Rightarrow> Inr (take 3 out))"
  by (simp add: encode_def make_encode_gen_def codec_gen_def chunkby_def Let_def slice_to_nonneg
      replicate_small split: sum.splits)

lemma encode_Three:
  "encode c [b0, b1, b2] =
     (case encode_quartet c (((of_char b0 * 256 + of_char b1) * 256 + of_char b2) * 256 + 0) of
        Inl e \<Rightarrow> Inl e | Inr out \<Rightarrow> Inr (take 4 out))"
  by (simp add: encode_def make_encode_gen_def codec_gen_def chunkby_def Let_def slice_to_nonneg
      replicate_small split: sum.splits)

lemma encode_Quartet:
  "encode c (b0 # b1 # b2 # b3 # rest) =
     (case encode_quartet c (((of_char b0 * 256 + of_char b1) * 256 + of_char b2) * 256 + of_char b3) of
        Inl e \<Rightarrow> Inl e
      | Inr out \<Rightarrow> (case encode c rest of Inl e \<Rightarrow> Inl e | Inr t \<Rightarrow> Inr (take 5 out @ t)))"
  by (simp add: encode_def make_encode_gen_def codec_gen_def chunkby_def Let_def slice_to_nonneg
      replicate_small split: sum.splits)

lemma decode_Nil: "alphabet c \<noteq> [] \<Longrightarrow> decode c [] = Inr []"
  by (simp add: decode_def make_decode_gen_def codec_gen_def chunkby_def)

lemma decode_One:
  "alphabet c \<noteq> [] \<Longrightarrow> p = last (alphabet c) \<Longrightarrow> decode c [c0] =
     (case get_num_by_seq_dec c [c0, p, p, p, p] of
        Inl e \<Rightarrow> Inl e
      | Inr val \<Rightarrow> (case decode_quintet val of Inl e \<Rightarrow> Inl e | Inr out \<Rightarrow> Inr (take 0 out)))"
  by (simp add: decode_def make_decode_gen_def codec_gen_def chunkby_def Let_def slice_to_nonneg
      replicate_small split: sum.splits)

lemma decode_Two:
  "alphabet c \<noteq> [] \<Longrightarrow> p = last (alphabet c) \<Longrightarrow> decode c [c0, c1] =
     (case get_num_by_seq_dec c [c0, c1, p, p, p] of
        Inl e \<Rightarrow> Inl e
      | Inr val \<Rightarrow> (case decode_quintet val of Inl e \<Rightarrow> Inl e | Inr out \<Rightarrow> Inr (take 1 out)))"
  by (simp add: decode_def make_decode_gen_def codec_gen_def chunkby_def Let_def slice_to_nonneg
      replicate_small split: sum.splits)

lemma decode_Three:
  "alphabet c \<noteq> [] \<Longrightarrow> p = last (alphabet c) \<Longrightarrow> decode c [c0, c1, c2] =
     (case get_num_by_seq_dec c [c0, c1, c2, p, p] of
        Inl e \<Rightarrow> Inl e
      | Inr val \<Rightarrow> (case decode_quintet val of Inl e \<Rightarrow> Inl e | Inr out \<Rightarrow> Inr (take 2 out)))"
  by (simp add: decode_def make_decode_gen_def codec_gen_def chunkby_def Let_def slice_to_nonneg
      replicate_small split: sum.splits)

lemma decode_Four:
  "alphabet c \<noteq> [] \<Longrightarrow> p = last (alphabet c) \<Longrightarrow> decode c [c0, c1, c2, c3] =
     (case get_num_by_seq_dec c [c0, c1, c2, c3, p] of
        Inl e \<Rightarrow> Inl e
      | Inr val \<Rightarrow> (case decode_quintet val of Inl e \<Rightarrow> Inl e | Inr out \<Rightarrow> Inr (take 3 out)))"
  by (simp add: decode_def make_decode_gen_def codec_gen_def chunkby_def Let_def slice_to_nonneg
      replicate_small split: sum.splits)

lemma decode_Quintet:
  "alphabet c \<noteq> [] \<Longrightarrow> decode c (c0 # c1 # c2 # c3 # c4 # rest) =
     (case get_num_by_seq_dec c [c0, c1, c2, c3, c4] of
        Inl e \<Rightarrow> Inl e
      | Inr val \<Rightarrow>
          (case decode_quintet val of
             Inl e \<Rightarrow> Inl e
           | Inr out \<Rightarrow> (case decode c rest of Inl e \<Rightarrow> Inl e | Inr bs \<Rightarrow> Inr (take 4 out @ bs))))"
  by (simp add: decode_def make_decode_gen_def codec_gen_def chunkby_def Let_def slice_to_nonneg
      replicate_small split: sum.splits)

subsection \<open>Positional arithmetic\<close>

lemma power_unfolds:
  fixes r :: nat
  shows "r ^ 5 = r ^ 4 * r" "r ^ 4 = r ^ 3 * r" "r ^ 3 = r\<^sup>2 * r" "r\<^sup>2 = r * r"
  by (simp_all add: numeral_eq_Suc mult_ac)

lemma digits_mod:
  fixes r V :: nat
  shows "V mod r ^ 5 = (V div r ^ 4 mod r) * r ^ 4 + V mod r ^ 4"
    and "V mod r ^ 4 = (V div r ^ 3 mod r) * r ^ 3 + V mod r ^ 3"
    and "V mod r ^ 3 = (V div r\<^sup>2 mod r) * r\<^sup>2 + V mod r\<^sup>2"
    and "V mod r\<^sup>2 = (V div r mod r) * r + V mod r"
proof -
  show "V mod r ^ 5 = (V div r ^ 4 mod r) * r ^ 4 + V mod r ^ 4"
    using mod_mult2_eq [of V "r ^ 4" r] by (metis power_unfolds(1) mult.commute)
  show "V mod r ^ 4 = (V div r ^ 3 mod r) * r ^ 3 + V mod r ^ 3"
    using mod_mult2_eq [of V "r ^ 3" r] by (metis power_unfolds(2) mult.commute)
  show "V mod r ^ 3 = (V div r\<^sup>2 mod r) * r\<^sup>2 + V mod r\<^sup>2"
    using mod_mult2_eq [of V "r\<^sup>2" r] by (metis power_unfolds(3) mult.commute)
  show "V mod r\<^sup>2 = (V div r mod r) * r + V mod r"
    using mod_mult2_eq [of V r r] by (metis power_unfolds(4) mult.commute)
qed

lemma digits_sum:
  fixes r V :: nat
  assumes "V < r ^ 5"
  shows "(V div r ^ 4 mod r) * r ^ 4 + (V div r ^ 3 mod r) * r ^ 3 + (V div r\<^sup>2 mod r) * r\<^sup>2
          + (V div r mod r) * r + V mod r = V"
proof -
  have "V mod r ^ 5 = V" using assms by simp
  then show ?thesis
    using digits_mod [of V r] by simp
qed

lemma pad_sums:
  fixes r :: nat
  assumes "0 < r"
  shows "(r - 1) * r\<^sup>2 + (r - 1) * r + (r - 1) + 1 = r ^ 3"
    and "(r - 1) * r + (r - 1) + 1 = r\<^sup>2"
proof -
  obtain q where q: "r = Suc q" using assms by (cases r) auto
  show "(r - 1) * r\<^sup>2 + (r - 1) * r + (r - 1) + 1 = r ^ 3"
    by (simp add: q power3_eq_cube power2_eq_square algebra_simps)
  show "(r - 1) * r + (r - 1) + 1 = r\<^sup>2"
    by (simp add: q power2_eq_square algebra_simps)
qed

text \<open>The value decoded from a trimmed group is the encoded value plus a small excess.\<close>

lemma tail_excess_1:
  fixes r V :: nat
  assumes "0 < r" "V < r ^ 5"
  shows "\<exists>e<r. (V div r ^ 4 mod r) * r ^ 4 + (V div r ^ 3 mod r) * r ^ 3 + (V div r\<^sup>2 mod r) * r\<^sup>2
          + (V div r mod r) * r + (r - 1) = V + e"
proof -
  have "V mod r < r" using assms(1) by simp
  then have "(V div r ^ 4 mod r) * r ^ 4 + (V div r ^ 3 mod r) * r ^ 3 + (V div r\<^sup>2 mod r) * r\<^sup>2
          + (V div r mod r) * r + (r - 1) = V + (r - 1 - V mod r)"
    using digits_sum [OF assms(2)] by linarith
  moreover have "r - 1 - V mod r < r" using assms(1) by simp
  ultimately show ?thesis by blast
qed

lemma tail_excess_2:
  fixes r V :: nat
  assumes "0 < r" "V < r ^ 5"
  shows "\<exists>e<r\<^sup>2. (V div r ^ 4 mod r) * r ^ 4 + (V div r ^ 3 mod r) * r ^ 3 + (V div r\<^sup>2 mod r) * r\<^sup>2
          + (r - 1) * r + (r - 1) = V + e"
proof -
  have lt: "V mod r\<^sup>2 < r\<^sup>2" using assms(1) by simp
  have full: "(V div r ^ 4 mod r) * r ^ 4 + (V div r ^ 3 mod r) * r ^ 3 + (V div r\<^sup>2 mod r) * r\<^sup>2
          + V mod r\<^sup>2 = V"
    using digits_sum [OF assms(2)] digits_mod(4) [of V r] by simp
  have "(V div r ^ 4 mod r) * r ^ 4 + (V div r ^ 3 mod r) * r ^ 3 + (V div r\<^sup>2 mod r) * r\<^sup>2
          + (r - 1) * r + (r - 1) = V + (r\<^sup>2 - 1 - V mod r\<^sup>2)"
    using full lt pad_sums(2) [OF assms(1)] by linarith
  moreover have "r\<^sup>2 - 1 - V mod r\<^sup>2 < r\<^sup>2" using assms(1) by simp
  ultimately show ?thesis by blast
qed

lemma tail_excess_3:
  fixes r V :: nat
  assumes "0 < r" "V < r ^ 5"
  shows "\<exists>e<r ^ 3. (V div r ^ 4 mod r) * r ^ 4 + (V div r ^ 3 mod r) * r ^ 3
          + (r - 1) * r\<^sup>2 + (r - 1) * r + (r - 1) = V + e"
proof -
  have lt: "V mod r ^ 3 < r ^ 3" using assms(1) by simp
  have full: "(V div r ^ 4 mod r) * r ^ 4 + (V div r ^ 3 mod r) * r ^ 3 + V mod r ^ 3 = V"
    using digits_sum [OF assms(2)] digits_mod(3,4) [of V r] by simp
  have "(V div r ^ 4 mod r) * r ^ 4 + (V div r ^ 3 mod r) * r ^ 3
          + (r - 1) * r\<^sup>2 + (r - 1) * r + (r - 1) = V + (r ^ 3 - 1 - V mod r ^ 3)"
    using full lt pad_sums(1) [OF assms(1)] by linarith
  moreover have "r ^ 3 - 1 - V mod r ^ 3 < r ^ 3" using assms(1) by simp
  ultimately show ?thesis by blast
qed

lemma radix_powers_bounds:
  fixes r :: nat
  assumes "85 \<le> r" "r \<le> 95"
  shows "4294967295 < r ^ 5" "r ^ 3 \<le> 857375" "r\<^sup>2 \<le> 9025"
proof -
  have "(85 :: nat) ^ 5 \<le> r ^ 5" using assms(1) by (rule power_mono) simp
  then show "4294967295 < r ^ 5" by simp
  have "r ^ 3 \<le> (95 :: nat) ^ 3" using assms(2) by (rule power_mono) simp
  then show "r ^ 3 \<le> 857375" by simp
  have "r\<^sup>2 \<le> (95 :: nat)\<^sup>2" using assms(2) by (rule power_mono) simp
  then show "r\<^sup>2 \<le> 9025" by simp
qed

lemma bytes_split_1:
  fixes x0 e :: nat
  assumes "x0 < 256" "e < 16777216"
  shows "(x0 * 16777216 + e) div 16777216 mod 256 = x0" "x0 * 16777216 + e \<le> 4294967295"
  using assms by simp_all

lemma bytes_split_2:
  fixes x0 x1 e :: nat
  assumes "x0 < 256" "x1 < 256" "e < 65536"
  defines "val \<equiv> (x0 * 256 + x1) * 65536 + e"
  shows "val div 16777216 mod 256 = x0" "val div 65536 mod 256 = x1" "val \<le> 4294967295"
proof -
  have "val = x0 * 16777216 + (x1 * 65536 + e)" by (simp add: val_def algebra_simps)
  moreover have "x1 * 65536 + e < 16777216" using assms by simp
  ultimately show "val div 16777216 mod 256 = x0" "val \<le> 4294967295"
    using bytes_split_1 [of x0 "x1 * 65536 + e"] assms(1) by simp_all
  have "val div 65536 = x0 * 256 + x1" using assms(3) by (simp add: val_def)
  then show "val div 65536 mod 256 = x1" using assms(2) by simp
qed

lemma bytes_split_3:
  fixes x0 x1 x2 e :: nat
  assumes "x0 < 256" "x1 < 256" "x2 < 256" "e < 256"
  defines "val \<equiv> ((x0 * 256 + x1) * 256 + x2) * 256 + e"
  shows "val div 16777216 mod 256 = x0" "val div 65536 mod 256 = x1" "val div 256 mod 256 = x2"
    "val mod 256 = e" "val \<le> 4294967295"
proof -
  have "val = (x0 * 256 + x1) * 65536 + (x2 * 256 + e)" by (simp add: val_def algebra_simps)
  moreover have "x2 * 256 + e < 65536" using assms by simp
  ultimately show "val div 16777216 mod 256 = x0" "val div 65536 mod 256 = x1" "val \<le> 4294967295"
    using bytes_split_2 [of x0 x1 "x2 * 256 + e"] assms(1,2) by simp_all
  have "val div 256 = (x0 * 256 + x1) * 256 + x2" using assms(4) by (simp add: val_def)
  then have "val div 256 mod 256 = x2 mod 256" by (simp only: mod_mult_self3)
  then show "val div 256 mod 256 = x2" using assms(3) by simp
  have "val mod 256 = e mod 256" unfolding val_def by (simp only: mod_mult_self3)
  then show "val mod 256 = e" using assms(4) by simp
qed

subsection \<open>Codecs built by the constructor\<close>

lemma encode_quartet_init:
  assumes "length a = r" "0 < r"
  shows "encode_quartet (init_fields a) num =
     Inr [a ! (num div r ^ 4 mod r), a ! (num div r ^ 3 mod r), a ! (num div r\<^sup>2 mod r),
          a ! (num div r mod r), a ! (num mod r)]"
  using assms by (simp add: encode_quartet_def init_fields_simps Let_def not_le)

lemma get_num_by_seq_dec_init:
  assumes "length a = r"
    and "ordmap (init_fields a) c0 = Some p0" and "ordmap (init_fields a) c1 = Some p1"
    and "ordmap (init_fields a) c2 = Some p2" and "ordmap (init_fields a) c3 = Some p3"
    and "ordmap (init_fields a) c4 = Some p4"
  shows "get_num_by_seq_dec_loop (init_fields a) [c0, c1, c2, c3, c4] (powersenum (init_fields a)) 0 =
     Inr (p0 * r ^ 4 + p1 * r ^ 3 + p2 * r\<^sup>2 + p3 * r + p4)"
  using assms by (simp add: init_fields_simps(5) Let_def)

lemma get_num_by_seq_dec_loop_illegal:
  assumes "n \<le> j" "j < n + length pw" "n + length pw \<le> length seq"
    and "ordmap c (seq ! j) = None"
    and "\<forall>k. n \<le> k \<and> k < j \<longrightarrow> ordmap c (seq ! k) \<noteq> None"
  shows "get_num_by_seq_dec_loop c seq (enumerate n pw) val =
     Inl (IllegalCharacter seq (seq ! j) (of_char (seq ! j)) j)"
  using assms
proof (induction pw arbitrary: n val)
  case Nil
  then show ?case by simp
next
  case (Cons offset pw)
  show ?case
  proof (cases "j = n")
    case True
    then show ?thesis using Cons.prems by (simp add: Let_def)
  next
    case False
    then have "ordmap c (seq ! n) \<noteq> None" using Cons.prems by simp
    then obtain pos where pos: "ordmap c (seq ! n) = Some pos" by blast
    have "get_num_by_seq_dec_loop c seq (enumerate (Suc n) pw) (val + pos * offset) =
        Inl (IllegalCharacter seq (seq ! j) (of_char (seq ! j)) j)"
      using Cons.prems False by (intro Cons.IH) auto
    then show ?thesis using Cons.prems pos by (simp add: Let_def)
  qed
qed

lemma z85_alphabet_length: "length z85_alphabet = 85"
  by (simp add: z85_alphabet_def)

lemma z85codec_eq: "z85codec = Inr (init_fields z85_alphabet)"
  by (simp add: z85codec_def Base8xCodec_def validate_alphabet_def z85_alphabet_def)

lemma adobe85_alphabet_length: "length adobe85_alphabet = 85"
  by (simp add: adobe85_alphabet_def)

lemma adobe85_alphabet_nth:
  assumes "i < 85"
  shows "adobe85_alphabet ! i = char_of (33 + i)"
proof -
  have "adobe85_alphabet ! i = char_of ([33 ..< 33 + 85] ! i)"
    unfolding adobe85_alphabet_def using assms by (intro nth_map) simp
  also have "[33 ..< 33 + 85] ! i = 33 + i"
    using assms by (intro nth_upt) simp
  finally show ?thesis .
qed

lemma adobe85_chars:
  "char_of (115 :: nat) = CHR ''s''" "char_of (56 :: nat) = CHR ''8''"
  "char_of (87 :: nat) = CHR ''W''" "char_of (45 :: nat) = CHR ''-''"
  "char_of (36 :: nat) = CHR ''$''" "char_of (33 :: nat) = CHR ''!''"
  by (simp_all add: char_of_eq_iff take_bit_eq_mod)

lemma adobe85codec_eq: "adobe85codec = Inr (init_fields adobe85_alphabet)"
proof -
  have "inj_on (char_of :: nat \<Rightarrow> char) {33 ..< 33 + 85}"
    by (rule inj_on_subset [OF inj_on_char_of_nat]) auto
  then have "distinct adobe85_alphabet"
    by (simp add: adobe85_alphabet_def distinct_map)
  moreover have "\<forall>ch\<in>set adobe85_alphabet. 32 \<le> (of_char ch :: nat) \<and> (of_char ch :: nat) \<le> 126"
    by (auto simp: adobe85_alphabet_def)
  ultimately show ?thesis
    by (simp add: adobe85codec_def Base8xCodec_def validate_alphabet_eq adobe85_alphabet_length)
qed

lemma adobe85_ordmap: "i < 85 \<Longrightarrow> ordmap (init_fields adobe85_alphabet) (char_of (33 + i)) = Some i"
  using ordmap_nth [of adobe85_alphabet i] adobe85codec_eq
  by (simp add: adobe85codec_def Base8xCodec_Inr_iff adobe85_alphabet_nth adobe85_alphabet_length)


lemma valid_codecD:
  assumes "Base8xCodec a = Inr c"
  shows "c = init_fields a" "distinct a" "85 \<le> length a" "length a \<le> 95"
    "alphabet c = a" "radix c = length a" "a \<noteq> []" "last a = a ! (length a - 1)"
    "alphabet c \<noteq> []"
proof -
  show c: "c = init_fields a" and "distinct a" and l: "85 \<le> length a" and "length a \<le> 95"
    using assms by (simp_all add: Base8xCodec_Inr_iff)
  show "alphabet c = a" "radix c = length a" by (simp_all add: c init_fields_simps)
  show ne: "a \<noteq> []" using l by auto
  then show "last a = a ! (length a - 1)" by (rule last_conv_nth)
  show "alphabet c \<noteq> []" using ne by (simp add: c init_fields_simps)
qed

lemma encode_quartet_valid:
  assumes "Base8xCodec a = Inr c" and "length a = r"
  shows "encode_quartet c num =
     Inr [a ! (num div r ^ 4 mod r), a ! (num div r ^ 3 mod r), a ! (num div r\<^sup>2 mod r),
          a ! (num div r mod r), a ! (num mod r)]"
proof -
  have "0 < r" using valid_codecD(3) [OF assms(1)] assms(2) by simp
  then show ?thesis
    using encode_quartet_init [OF assms(2), of num] valid_codecD(1) [OF assms(1)] by simp
qed

lemma get_num_by_seq_dec_valid:
  assumes "Base8xCodec a = Inr c" and "length a = r"
    and "d0 < r" "d1 < r" "d2 < r" "d3 < r" "d4 < r"
    and "val = d0 * r ^ 4 + d1 * r ^ 3 + d2 * r\<^sup>2 + d3 * r + d4"
  shows "get_num_by_seq_dec c [a ! d0, a ! d1, a ! d2, a ! d3, a ! d4] =
     (if val > MAXVAL then Inl (IllegalSequence [a ! d0, a ! d1, a ! d2, a ! d3, a ! d4] val)
      else Inr val)"
proof -
  note v = valid_codecD [OF assms(1)]
  have "get_num_by_seq_dec_loop (init_fields a) [a ! d0, a ! d1, a ! d2, a ! d3, a ! d4]
      (powersenum (init_fields a)) 0 = Inr val"
    unfolding assms(8)
    using assms(2-7) v(2) by (intro get_num_by_seq_dec_init ordmap_nth) simp_all
  then show ?thesis
    by (simp add: get_num_by_seq_dec_def v(1))
qed

lemma of_char_less_256: "(of_char (b :: char) :: nat) < 256"
  by simp

lemma roundtrip_Quartet:
  assumes "Base8xCodec a = Inr c"
    and "V = ((of_char b0 * 256 + of_char b1) * 256 + of_char b2) * 256 + of_char b3"
  shows "\<exists>c0 c1 c2 c3 c4. encode_quartet c V = Inr [c0, c1, c2, c3, c4] \<and>
     get_num_by_seq_dec c [c0, c1, c2, c3, c4] = Inr V \<and> decode_quintet V = Inr [b0, b1, b2, b3]"
proof -
  define r where "r = length a"
  note v = valid_codecD [OF assms(1)]
  have r: "0 < r" "85 \<le> r" "r \<le> 95" "length a = r" using v by (simp_all add: r_def)
  note bs = bytes_split_3 [OF of_char_less_256 of_char_less_256 of_char_less_256 of_char_less_256,
      of b0 b1 b2 b3, folded assms(2)]
  have lt: "V < r ^ 5" using bs(5) radix_powers_bounds(1) [OF r(2,3)] by simp
  have "get_num_by_seq_dec c [a ! (V div r ^ 4 mod r), a ! (V div r ^ 3 mod r), a ! (V div r\<^sup>2 mod r),
          a ! (V div r mod r), a ! (V mod r)] = Inr V"
    using get_num_by_seq_dec_valid [OF assms(1) r(4) _ _ _ _ _ digits_sum [OF lt, symmetric]] r(1) bs(5)
    by (simp add: MAXVAL_def)
  moreover have "decode_quintet V = Inr [b0, b1, b2, b3]"
    using bs by (simp add: decode_quintet_def)
  ultimately show ?thesis
    using encode_quartet_valid [OF assms(1) r(4), of V] by blast
qed


lemma roundtrip_Three:
  assumes "Base8xCodec a = Inr c"
    and "V = ((of_char b0 * 256 + of_char b1) * 256 + of_char b2) * 256 + 0"
  shows "\<exists>c0 c1 c2 c3 c4 val out. encode_quartet c V = Inr [c0, c1, c2, c3, c4] \<and>
     get_num_by_seq_dec c [c0, c1, c2, c3, last a] = Inr val \<and>
     decode_quintet val = Inr out \<and> take 3 out = [b0, b1, b2]"
proof -
  define r where "r = length a"
  note v = valid_codecD [OF assms(1)]
  have r: "0 < r" "85 \<le> r" "r \<le> 95" "length a = r" "r - 1 < r" using v by (simp_all add: r_def)
  have V: "V \<le> 4294967295"
    unfolding assms(2) by (intro bytes_split_3(5)) simp_all
  then have lt: "V < r ^ 5" using radix_powers_bounds(1) [OF r(2,3)] by simp
  obtain e where e: "e < r"
    and val: "(V div r ^ 4 mod r) * r ^ 4 + (V div r ^ 3 mod r) * r ^ 3 + (V div r\<^sup>2 mod r) * r\<^sup>2
          + (V div r mod r) * r + (r - 1) = V + e"
    using tail_excess_1 [OF r(1) lt] by blast
  have Ve: "V + e = ((of_char b0 * 256 + of_char b1) * 256 + of_char b2) * 256 + e"
    by (simp add: assms(2))
  have e': "e < 256" using e r(3) by simp
  note bs = bytes_split_3 [OF of_char_less_256 of_char_less_256 of_char_less_256 e',
      of b0 b1 b2, folded Ve]
  have "get_num_by_seq_dec c [a ! (V div r ^ 4 mod r), a ! (V div r ^ 3 mod r), a ! (V div r\<^sup>2 mod r),
          a ! (V div r mod r), a ! (r - 1)] = Inr (V + e)"
    using get_num_by_seq_dec_valid [OF assms(1) r(4) _ _ _ _ r(5) val [symmetric]] r(1) bs(5)
    by (simp add: MAXVAL_def)
  moreover have "last a = a ! (r - 1)" using v(8) by (simp add: r_def)
  moreover have "decode_quintet (V + e) =
      Inr [b0, b1, b2, char_of ((V + e) mod 256)]"
    using bs by (simp add: decode_quintet_def)
  ultimately show ?thesis
    using encode_quartet_valid [OF assms(1) r(4), of V] by simp
qed

lemma roundtrip_Two:
  assumes "Base8xCodec a = Inr c"
    and "V = ((of_char b0 * 256 + of_char b1) * 256 + 0) * 256 + 0"
  shows "\<exists>c0 c1 c2 c3 c4 val out. encode_quartet c V = Inr [c0, c1, c2, c3, c4] \<and>
     get_num_by_seq_dec c [c0, c1, c2, last a, last a] = Inr val \<and>
     decode_quintet val = Inr out \<and> take 2 out = [b0, b1]"
proof -
  define r where "r = length a"
  note v = valid_codecD [OF assms(1)]
  have r: "0 < r" "85 \<le> r" "r \<le> 95" "length a = r" "r - 1 < r" using v by (simp_all add: r_def)
  have "V = (of_char b0 * 256 + of_char b1) * 65536 + 0" by (simp add: assms(2))
  then have V: "V \<le> 4294967295"
    using bytes_split_2(3) [of "of_char b0" "of_char b1" 0] by simp
  then have lt: "V < r ^ 5" using radix_powers_bounds(1) [OF r(2,3)] by simp
  obtain e where e: "e < r\<^sup>2"
    and val: "(V div r ^ 4 mod r) * r ^ 4 + (V div r ^ 3 mod r) * r ^ 3 + (V div r\<^sup>2 mod r) * r\<^sup>2
          + (r - 1) * r + (r - 1) = V + e"
    using tail_excess_2 [OF r(1) lt] by blast
  have Ve: "V + e = (of_char b0 * 256 + of_char b1) * 65536 + e"
    by (simp add: assms(2))
  have e': "e < 65536" using e radix_powers_bounds(3) [OF r(2,3)] by simp
  note bs = bytes_split_2 [OF of_char_less_256 of_char_less_256 e', of b0 b1, folded Ve]
  have "get_num_by_seq_dec c [a ! (V div r ^ 4 mod r), a ! (V div r ^ 3 mod r), a ! (V div r\<^sup>2 mod r),
          a ! (r - 1), a ! (r - 1)] = Inr (V + e)"
    using get_num_by_seq_dec_valid [OF assms(1) r(4) _ _ _ r(5) r(5) val [symmetric]] r(1) bs(3)
    by (simp add: MAXVAL_def)
  moreover have "last a = a ! (r - 1)" using v(8) by (simp add: r_def)
  moreover have "decode_quintet (V + e) =
      Inr [b0, b1, char_of ((V + e) div 256 mod 256), char_of ((V + e) mod 256)]"
    using bs by (simp add: decode_quintet_def)
  ultimately show ?thesis
    using encode_quartet_valid [OF assms(1) r(4), of V] by simp
qed

lemma roundtrip_One:
  assumes "Base8xCodec a = Inr c"
    and "V = ((of_char b0 * 256 + 0) * 256 + 0) * 256 + 0"
  shows "\<exists>c0 c1 c2 c3 c4 val out. encode_quartet c V = Inr [c0, c1, c2, c3, c4] \<and>
     get_num_by_seq_dec c [c0, c1, last a, last a, last a] = Inr val \<and>
     decode_quintet val = Inr out \<and> take 1 out = [b0]"
proof -
  define r where "r = length a"
  note v = valid_codecD [OF assms(1)]
  have r: "0 < r" "85 \<le> r" "r \<le> 95" "length a = r" "r - 1 < r" using v by (simp_all add: r_def)
  have V0: "V = of_char b0 * 16777216 + 0" by (simp add: assms(2))
  then have V: "V \<le> 4294967295"
    using bytes_split_1(2) [of "of_char b0" 0] by simp
  then have lt: "V < r ^ 5" using radix_powers_bounds(1) [OF r(2,3)] by simp
  obtain e where e: "e < r ^ 3"
    and val: "(V div r ^ 4 mod r) * r ^ 4 + (V div r ^ 3 mod r) * r ^ 3
          + (r - 1) * r\<^sup>2 + (r - 1) * r + (r - 1) = V + e"
    using tail_excess_3 [OF r(1) lt] by blast
  have Ve: "V + e = of_char b0 * 16777216 + e"
    by (simp add: assms(2))
  have e': "e < 16777216" using e radix_powers_bounds(2) [OF r(2,3)] by simp
  note bs = bytes_split_1 [OF of_char_less_256 e', of b0, folded Ve]
  have "get_num_by_seq_dec c [a ! (V div r ^ 4 mod r), a ! (V div r ^ 3 mod r), a ! (r - 1),
          a ! (r - 1), a ! (r - 1)] = Inr (V + e)"
    using get_num_by_seq_dec_valid [OF assms(1) r(4) _ _ r(5) r(5) r(5) val [symmetric]] r(1) bs(2)
    by (simp add: MAXVAL_def)
  moreover have "last a = a ! (r - 1)" using v(8) by (simp add: r_def)
  moreover have "decode_quintet (V + e) =
      Inr [b0, char_of ((V + e) div 65536 mod 256), char_of ((V + e) div 256 mod 256),
        char_of ((V + e) mod 256)]"
    using bs by (simp add: decode_quintet_def)
  ultimately show ?thesis
    using encode_quartet_valid [OF assms(1) r(4), of V] by simp
qed

lemma z85_valid: "Base8xCodec z85_alphabet = Inr (init_fields z85_alphabet)"
  using z85codec_eq by (simp add: z85codec_def)

lemma adobe85_valid: "Base8xCodec adobe85_alphabet = Inr (init_fields adobe85_alphabet)"
  using adobe85codec_eq by (simp add: adobe85codec_def)

subsection \<open>Whole texts\<close>

lemma decode_append:
  assumes "alphabet c \<noteq> []" and "length pre mod 5 = 0"
  shows "decode c (pre @ rest) =
     (case decode c pre of
        Inl e \<Rightarrow> Inl e
      | Inr bs \<Rightarrow> (case decode c rest of Inl e \<Rightarrow> Inl e | Inr bs' \<Rightarrow> Inr (bs @ bs')))"
  using assms(2)
proof (induction pre rule: quintet_induct)
  case Nil
  show ?case using assms(1) by (simp add: decode_Nil split: sum.splits)
next
  case (Quintet c0 c1 c2 c3 c4 pre)
  then have "length pre mod 5 = 0" by simp
  then show ?case
    using Quintet.IH assms(1) by (simp add: decode_Quintet split: sum.splits)
qed simp_all

lemma nth_mod_mem: "a \<noteq> [] \<Longrightarrow> a ! (k mod length a) \<in> set a"
  by simp

lemma encode_valid_shape:
  assumes "Base8xCodec a = Inr c"
  shows "\<exists>t. encode c x = Inr t \<and>
     length t = 5 * (length x div 4) + (if length x mod 4 = 0 then 0 else length x mod 4 + 1) \<and>
     set t \<subseteq> set a"
proof (induction x rule: quartet_induct)
  case Nil
  show ?case by (simp add: encode_Nil)
next
  case (One b0)
  show ?case
    using valid_codecD(7) [OF assms]
    by (simp add: encode_One encode_quartet_valid [OF assms refl] nth_mod_mem)
next
  case (Two b0 b1)
  show ?case
    using valid_codecD(7) [OF assms]
    by (simp add: encode_Two encode_quartet_valid [OF assms refl] nth_mod_mem)
next
  case (Three b0 b1 b2)
  show ?case
    using valid_codecD(7) [OF assms]
    by (simp add: encode_Three encode_quartet_valid [OF assms refl] nth_mod_mem)
next
  case (Quartet b0 b1 b2 b3 rest)
  then obtain t where t: "encode c rest = Inr t"
    "length t = 5 * (length rest div 4) + (if length rest mod 4 = 0 then 0 else length rest mod 4 + 1)"
    "set t \<subseteq> set a" by blast
  have l: "length (b0 # b1 # b2 # b3 # rest) = length rest + 4" by simp
  have d: "(length rest + 4) div 4 = length rest div 4 + 1"
    "(length rest + 4) mod 4 = length rest mod 4" by simp_all
  show ?case
    unfolding l d using valid_codecD(7) [OF assms] t
    by (simp add: encode_Quartet encode_quartet_valid [OF assms refl] nth_mod_mem)
qed


lemma valid_ordmap_Some:
  assumes "Base8xCodec a = Inr c" and "ch \<in> set a"
  shows "ordmap c ch \<noteq> None"
proof -
  obtain i where "i < length a" "a ! i = ch" using assms(2) by (auto simp: in_set_conv_nth)
  then show ?thesis
    using ordmap_nth [of a i] valid_codecD(1,2) [OF assms(1)] by auto
qed

lemma get_num_by_seq_dec_illegal:
  assumes "Base8xCodec a = Inr c" and "length g = 5" and "j < 5"
    and "g ! j \<notin> set a" and "\<forall>k<j. g ! k \<in> set a"
  shows "get_num_by_seq_dec c g = Inl (IllegalCharacter g (g ! j) (of_char (g ! j)) j)"
proof -
  note v = valid_codecD [OF assms(1)]
  have pw: "powersenum c =
      enumerate 0 [length a ^ 4, length a ^ 3, (length a)\<^sup>2, length a, 1]"
    by (simp add: v(1) init_fields_simps)
  have none: "ordmap c (g ! j) = None"
    using assms(4) by (simp add: v(1) ordmap_notin)
  have some: "\<forall>k. 0 \<le> k \<and> k < j \<longrightarrow> ordmap c (g ! k) \<noteq> None"
    using assms(5) valid_ordmap_Some [OF assms(1)] by blast
  have "get_num_by_seq_dec_loop c g (powersenum c) 0 =
      Inl (IllegalCharacter g (g ! j) (of_char (g ! j)) j)"
    unfolding pw using assms(2,3) none some
    by (intro get_num_by_seq_dec_loop_illegal) simp_all
  then show ?thesis by (simp add: get_num_by_seq_dec_def)
qed

lemma decode_first_group_illegal:
  assumes "Base8xCodec a = Inr c" and "j < 5" and "j < length rest"
    and "rest ! j \<notin> set a" and "\<forall>k<j. rest ! k \<in> set a"
  shows "decode c rest =
     Inl (IllegalCharacter (take 5 (rest @ replicate 4 (last a))) (rest ! j) (of_char (rest ! j)) j)"
proof -
  note v = valid_codecD [OF assms(1)]
  define g where "g = take 5 (rest @ replicate 4 (last a))"
  have lg: "length g = 5" using assms(3) by (auto simp: g_def)
  have nth: "\<And>k. k \<le> j \<Longrightarrow> g ! k = rest ! k"
    using assms(2,3) by (simp add: g_def nth_append)
  have "get_num_by_seq_dec c g = Inl (IllegalCharacter g (g ! j) (of_char (g ! j)) j)"
    using assms(2,4,5) nth lg by (intro get_num_by_seq_dec_illegal [OF assms(1)]) simp_all
  then have num: "get_num_by_seq_dec c g = Inl (IllegalCharacter g (rest ! j) (of_char (rest ! j)) j)"
    using nth [of j] by simp
  consider "rest = []" | c0 where "rest = [c0]" | c0 c1 where "rest = [c0, c1]"
    | c0 c1 c2 where "rest = [c0, c1, c2]" | c0 c1 c2 c3 where "rest = [c0, c1, c2, c3]"
    | c0 c1 c2 c3 c4 more where "rest = c0 # c1 # c2 # c3 # c4 # more"
    by (metis list.exhaust)
  then show ?thesis
  proof cases
    case 1
    then show ?thesis using assms(3) by simp
  next
    case 2
    then show ?thesis
      using num v(5,9) by (simp add: g_def decode_One replicate_small)
  next
    case 3
    then show ?thesis
      using num v(5,9) by (simp add: g_def decode_Two replicate_small)
  next
    case 4
    then show ?thesis
      using num v(5,9) by (simp add: g_def decode_Three replicate_small)
  next
    case 5
    then show ?thesis
      using num v(5,9) by (simp add: g_def decode_Four replicate_small)
  next
    case 6
    then show ?thesis
      using num v(5,9) by (simp add: g_def decode_Quintet)
  qed
qed

lemma decode_single_character:
  assumes "Base8xCodec a = Inr c" and "p < length a"
    and "p * length a ^ 4 + (length a - 1) * (length a ^ 3 + (length a)\<^sup>2 + length a + 1) \<le> 2 ^ 32 - 1"
  shows "decode c [a ! p] = Inr []"
proof -
  define r where "r = length a"
  note v = valid_codecD [OF assms(1)]
  have r: "length a = r" "r - 1 < r" "p < r" using v assms(2) by (simp_all add: r_def)
  define val where "val = p * r ^ 4 + (r - 1) * r ^ 3 + (r - 1) * r\<^sup>2 + (r - 1) * r + (r - 1)"
  have "val = p * r ^ 4 + (r - 1) * (r ^ 3 + r\<^sup>2 + r + 1)"
    by (simp add: val_def distrib_left)
  then have le: "val \<le> 4294967295" using assms(3) by (simp add: r_def)
  have "get_num_by_seq_dec c [a ! p, a ! (r - 1), a ! (r - 1), a ! (r - 1), a ! (r - 1)] = Inr val"
    using get_num_by_seq_dec_valid [OF assms(1) r(1) r(3) r(2) r(2) r(2) r(2) val_def] le
    by (simp add: MAXVAL_def)
  moreover have "last a = a ! (r - 1)" using v(8) by (simp add: r_def)
  ultimately show ?thesis
    using v(5,9) le by (simp add: decode_One decode_quintet_def)
qed


lemma z85_decode_Hello:
  "decode (init_fields z85_alphabet) ''Hello'' = Inr (map char_of [0x86, 0x4f, 0xd2, 0x6f :: nat])"
proof -
  define V :: nat where "V = ((0x86 * 256 + 0x4f) * 256 + 0xd2) * 256 + 0x6f"
  have V: "V = ((of_char (char_of (0x86 :: nat)) * 256 + of_char (char_of (0x4f :: nat))) * 256
      + of_char (char_of (0xd2 :: nat))) * 256 + of_char (char_of (0x6f :: nat))"
    by (simp add: V_def)
  obtain c0 c1 c2 c3 c4
    where enc: "encode_quartet (init_fields z85_alphabet) V = Inr [c0, c1, c2, c3, c4]"
      and num: "get_num_by_seq_dec (init_fields z85_alphabet) [c0, c1, c2, c3, c4] = Inr V"
      and out: "decode_quintet V =
        Inr [char_of (0x86 :: nat), char_of (0x4f :: nat), char_of (0xd2 :: nat), char_of (0x6f :: nat)]"
    using roundtrip_Quartet [OF z85_valid V] by blast
  have "encode_quartet (init_fields z85_alphabet) V = Inr ''Hello''"
    by (simp add: encode_quartet_init [OF z85_alphabet_length] V_def) (simp add: z85_alphabet_def)
  then have eq: "[c0, c1, c2, c3, c4] = ''Hello''"
    using enc by simp
  have "get_num_by_seq_dec (init_fields z85_alphabet) ''Hello'' = Inr V"
    using num unfolding eq .
  then show ?thesis
    using out valid_codecD(9) [OF z85_valid] by (simp add: decode_Quintet decode_Nil)
qed

lemma z85_encode_abcdefg: "encode (init_fields z85_alphabet) ''abcdefg'' = Inr ''vpA.SwObM''"
  by (simp add: encode_Quartet encode_Three encode_quartet_init [OF z85_alphabet_length])
    (simp add: z85_alphabet_def)

section \<open>The claims\<close>

subsection \<open>C1: round trip\<close>

text \<open>
  Claim C1. For every byte sequence \<open>x\<close> (the empty one included) and every codec that the
  constructor returns, \<open>encode\<close> succeeds on \<open>x\<close> and \<open>decode\<close> of the encoded text
  returns \<open>x\<close>; so \<open>decode\<close> raises neither of its errors on a text that \<open>encode\<close> of
  the same codec produced.
\<close>

theorem decode_encode_roundtrip:
  assumes "Base8xCodec a = Inr c"
  shows "\<exists>t. encode c x = Inr t \<and> decode c t = Inr x"
proof (induction x rule: quartet_induct)
  case Nil
  show ?case using valid_codecD(9) [OF assms] by (simp add: encode_Nil decode_Nil)
next
  case (One b0)
  obtain c0 c1 c2 c3 c4 val out
    where "encode_quartet c (((of_char b0 * 256 + 0) * 256 + 0) * 256 + 0) = Inr [c0, c1, c2, c3, c4]"
      and "get_num_by_seq_dec c [c0, c1, last a, last a, last a] = Inr val"
      and "decode_quintet val = Inr out" and "take 1 out = [b0]"
    using roundtrip_One [OF assms refl, of b0] by blast
  then show ?case
    using valid_codecD(5,9) [OF assms] by (simp add: encode_One decode_Two)
next
  case (Two b0 b1)
  obtain c0 c1 c2 c3 c4 val out
    where "encode_quartet c (((of_char b0 * 256 + of_char b1) * 256 + 0) * 256 + 0) = Inr [c0, c1, c2, c3, c4]"
      and "get_num_by_seq_dec c [c0, c1, c2, last a, last a] = Inr val"
      and "decode_quintet val = Inr out" and "take 2 out = [b0, b1]"
    using roundtrip_Two [OF assms refl, of b0 b1] by blast
  then show ?case
    using valid_codecD(5,9) [OF assms] by (simp add: encode_Two decode_Three)
next
  case (Three b0 b1 b2)
  obtain c0 c1 c2 c3 c4 val out
    where "encode_quartet c (((of_char b0 * 256 + of_char b1) * 256 + of_char b2) * 256 + 0) = Inr [c0, c1, c2, c3, c4]"
      and "get_num_by_seq_dec c [c0, c1, c2, c3, last a] = Inr val"
      and "decode_quintet val = Inr out" and "take 3 out = [b0, b1, b2]"
    using roundtrip_Three [OF assms refl, of b0 b1 b2] by blast
  then show ?case
    using valid_codecD(5,9) [OF assms] by (simp add: encode_Three decode_Four)
next
  case (Quartet b0 b1 b2 b3 rest)
  then obtain t where t: "encode c rest = Inr t" "decode c t = Inr rest" by blast
  obtain c0 c1 c2 c3 c4
    where "encode_quartet c (((of_char b0 * 256 + of_char b1) * 256 + of_char b2) * 256 + of_char b3)
        = Inr [c0, c1, c2, c3, c4]"
      and "get_num_by_seq_dec c [c0, c1, c2, c3, c4] =
        Inr (((of_char b0 * 256 + of_char b1) * 256 + of_char b2) * 256 + of_char b3)"
      and "decode_quintet (((of_char b0 * 256 + of_char b1) * 256 + of_char b2) * 256 + of_char b3)
        = Inr [b0, b1, b2, b3]"
    using roundtrip_Quartet [OF assms refl, of b0 b1 b2 b3] by blast
  then show ?case
    using valid_codecD(9) [OF assms] t by (simp add: encode_Quartet decode_Quintet)
qed

theorem decode_encode_roundtrip_witness:
  "Base8xCodec z85_alphabet = Inr (init_fields z85_alphabet) \<and>
   encode (init_fields z85_alphabet) ''abcdefg'' = Inr ''vpA.SwObM'' \<and>
   decode (init_fields z85_alphabet) ''vpA.SwObM'' = Inr ''abcdefg''"
  using decode_encode_roundtrip [OF z85_valid, of "''abcdefg''"] z85_valid z85_encode_abcdefg
  by simp

subsection \<open>C2: the length of the encoded text\<close>

text \<open>
  Claim C2. For every byte sequence, the text that \<open>encode\<close> returns has five characters
  for each full group of four bytes, and \<open>5 - padCount\<close> more for a remainder of one,
  two or three bytes, where \<open>padCount\<close> is four minus the size of the remainder: two,
  three or four characters. The empty input gives the empty text.
\<close>

theorem encode_length:
  assumes "Base8xCodec a = Inr c"
  shows "encode c [] = Inr [] \<and>
    (\<exists>t. encode c x = Inr t \<and>
       length t = 5 * (length x div 4) +
         (if length x mod 4 = 0 then 0 else 5 - (4 - length x mod 4)))"
proof -
  have "length x mod 4 < 4" by simp
  then have "5 - (4 - length x mod 4) = length x mod 4 + 1" by linarith
  then show ?thesis
    using encode_valid_shape [OF assms, of x] by (auto simp: encode_Nil)
qed

theorem encode_length_witness:
  "Base8xCodec z85_alphabet = Inr (init_fields z85_alphabet) \<and>
   encode (init_fields z85_alphabet) ''abcdefg'' = Inr ''vpA.SwObM'' \<and>
   length ''vpA.SwObM'' = 5 * (length ''abcdefg'' div 4) + (5 - (4 - length ''abcdefg'' mod 4))"
  using encode_length [OF z85_valid, of "''abcdefg''"] z85_valid z85_encode_abcdefg by simp

subsection \<open>C3: which alphabets the constructor accepts\<close>

text \<open>
  Claim C3. The constructor returns a codec exactly when the candidate consists of 85 to
  95 characters, all different and all printable (code points 32 to 126), and raises the
  invalid-alphabet error otherwise: so 85 different printable characters are accepted,
  candidates of 84 or of 96 characters are rejected, as is one holding a character of code
  point 31 or 127, or a repeated character.
\<close>

theorem Base8xCodec_accepts_exactly:
  "Base8xCodec a =
     (if distinct a \<and> (\<forall>ch\<in>set a. 32 \<le> (of_char ch :: nat) \<and> (of_char ch :: nat) \<le> 126) \<and>
         85 \<le> length a \<and> length a \<le> 95
      then Inr (init_fields a) else Inl InvalidAlphabet)"
  by (simp add: Base8xCodec_def validate_alphabet_eq)

theorem Base8xCodec_accepts_exactly_witness:
  "length z85_alphabet = 85 \<and>
   Base8xCodec z85_alphabet = Inr (init_fields z85_alphabet) \<and>
   Base8xCodec (butlast z85_alphabet) = Inl InvalidAlphabet \<and>
   Base8xCodec (map char_of [31 ..< 127 :: nat]) = Inl InvalidAlphabet \<and>
   Base8xCodec (char_of (31 :: nat) # butlast z85_alphabet) = Inl InvalidAlphabet \<and>
   Base8xCodec (char_of (127 :: nat) # butlast z85_alphabet) = Inl InvalidAlphabet \<and>
   Base8xCodec (CHR ''0'' # z85_alphabet) = Inl InvalidAlphabet"
proof -
  have "Base8xCodec z85_alphabet = Inr (init_fields z85_alphabet)"
    using Base8xCodec_accepts_exactly [of z85_alphabet] by (simp add: z85_alphabet_def)
  moreover have "Base8xCodec (butlast z85_alphabet) = Inl InvalidAlphabet"
    using Base8xCodec_accepts_exactly [of "butlast z85_alphabet"] by (simp add: z85_alphabet_length)
  moreover have "Base8xCodec (map char_of [31 ..< 127 :: nat]) = Inl InvalidAlphabet"
    using Base8xCodec_accepts_exactly [of "map char_of [31 ..< 127 :: nat]"]
    by (simp del: upt_rec_numeral)
  moreover have "Base8xCodec (char_of (31 :: nat) # butlast z85_alphabet) = Inl InvalidAlphabet"
    using Base8xCodec_accepts_exactly [of "char_of (31 :: nat) # butlast z85_alphabet"] by simp
  moreover have "Base8xCodec (char_of (127 :: nat) # butlast z85_alphabet) = Inl InvalidAlphabet"
    using Base8xCodec_accepts_exactly [of "char_of (127 :: nat) # butlast z85_alphabet"] by simp
  moreover have "Base8xCodec (CHR ''0'' # z85_alphabet) = Inl InvalidAlphabet"
    using Base8xCodec_accepts_exactly [of "CHR ''0'' # z85_alphabet"] by (simp add: z85_alphabet_def)
  ultimately show ?thesis
    using z85_alphabet_length by simp
qed

subsection \<open>C4: a group whose value exceeds 32 bits\<close>

text \<open>
  Claim C4. With the codec over the 85 characters of code points 33 to 117, decoding
  \<open>s8W-$\<close> raises the illegal-sequence error, which carries the text and the value:
  the five characters accumulate to \<open>0x100000002\<close>, which exceeds \<open>2\<^sup>3\<^sup>2 - 1\<close>.
\<close>

theorem decode_adobe85_illegal_sequence:
  "\<exists>c. adobe85codec = Inr c \<and>
     get_num_by_seq_dec_loop c ''s8W-$'' (powersenum c) 0 = Inr 4294967298 \<and>
     MAXVAL < 4294967298 \<and>
     decode c ''s8W-$'' = Inl (IllegalSequence ''s8W-$'' 4294967298)"
proof -
  have s: "ordmap (init_fields adobe85_alphabet) CHR ''s'' = Some 82"
    using adobe85_ordmap [of 82] by (simp add: adobe85_chars)
  have 8: "ordmap (init_fields adobe85_alphabet) CHR ''8'' = Some 23"
    using adobe85_ordmap [of 23] by (simp add: adobe85_chars)
  have W: "ordmap (init_fields adobe85_alphabet) CHR ''W'' = Some 54"
    using adobe85_ordmap [of 54] by (simp add: adobe85_chars)
  have m: "ordmap (init_fields adobe85_alphabet) CHR ''-'' = Some 12"
    using adobe85_ordmap [of 12] by (simp add: adobe85_chars)
  have d: "ordmap (init_fields adobe85_alphabet) CHR ''$'' = Some 3"
    using adobe85_ordmap [of 3] by (simp add: adobe85_chars)
  have loop: "get_num_by_seq_dec_loop (init_fields adobe85_alphabet) ''s8W-$''
      (powersenum (init_fields adobe85_alphabet)) 0 = Inr 4294967298"
    using get_num_by_seq_dec_init [OF adobe85_alphabet_length s 8 W m d] by simp
  have ne: "alphabet (init_fields adobe85_alphabet) \<noteq> []"
    using adobe85_alphabet_length by (auto simp: init_fields_simps)
  show ?thesis
    unfolding adobe85codec_eq using loop ne
    by (simp add: decode_Quintet get_num_by_seq_dec_def MAXVAL_def)
qed

subsection \<open>C5: the predefined alphabet\<close>

text \<open>
  Claim C5, as amended. The alphabet of the predefined codec is, in this order, the digits
  0 to 9, the lowercase letters, the uppercase letters and the 23 symbols
  \<open>.-:+=^!/*?&<>()[]{}@%$#\<close>: 85 characters in all.
\<close>

theorem z85codec_alphabet:
  "\<exists>c. z85codec = Inr c \<and>
     alphabet c = ''0123456789'' @ ''abcdefghijklmnopqrstuvwxyz'' @ ''ABCDEFGHIJKLMNOPQRSTUVWXYZ'' @
       ''.-:+=^!/*?&<>()[]{}@%$#'' \<and>
     length ''.-:+=^!/*?&<>()[]{}@%$#'' = 23 \<and>
     length (alphabet c) = 85"
  unfolding z85codec_eq by (simp add: init_fields_simps z85_alphabet_def)

text \<open>
  Claim C5 as stated counts 21 symbols after the letters; no list of 21 characters
  completes the alphabet of the predefined codec.
\<close>

theorem z85codec_alphabet_not_21_symbols:
  "\<not> (\<exists>c syms. z85codec = Inr c \<and> length syms = 21 \<and>
     alphabet c = ''0123456789'' @ ''abcdefghijklmnopqrstuvwxyz'' @ ''ABCDEFGHIJKLMNOPQRSTUVWXYZ'' @ syms)"
proof
  assume "\<exists>c syms. z85codec = Inr c \<and> length syms = 21 \<and>
     alphabet c = ''0123456789'' @ ''abcdefghijklmnopqrstuvwxyz'' @ ''ABCDEFGHIJKLMNOPQRSTUVWXYZ'' @ syms"
  then obtain syms :: string where len: "length syms = 21"
    and eq: "z85_alphabet =
      ''0123456789'' @ ''abcdefghijklmnopqrstuvwxyz'' @ ''ABCDEFGHIJKLMNOPQRSTUVWXYZ'' @ syms"
    by (auto simp: z85codec_eq init_fields_simps)
  have "length z85_alphabet =
      length (''0123456789'' @ ''abcdefghijklmnopqrstuvwxyz'' @ ''ABCDEFGHIJKLMNOPQRSTUVWXYZ'' @ syms)"
    using eq by (rule arg_cong)
  also have "\<dots> = 83" using len by simp
  finally show False by (simp add: z85_alphabet_length)
qed

subsection \<open>C6: the Z85 reference vector\<close>

text \<open>
  Claim C6. The predefined codec encodes the eight bytes
  \<open>86 4f d2 6f b5 59 f7 5b\<close> (hexadecimal) as the text \<open>HelloWorld\<close>.
\<close>

theorem z85codec_encode_HelloWorld:
  "\<exists>c. z85codec = Inr c \<and>
     encode c (map char_of [0x86, 0x4f, 0xd2, 0x6f, 0xb5, 0x59, 0xf7, 0x5b :: nat]) = Inr ''HelloWorld''"
  unfolding z85codec_eq
  by (simp add: encode_Quartet encode_Nil encode_quartet_init [OF z85_alphabet_length])
    (simp add: z85_alphabet_def)

subsection \<open>C7: the reference vector of the alphabet 33 to 117\<close>

text \<open>
  Claim C7. The codec over the 85 characters of code points 33 to 117 encodes the four bytes
  \<open>ff ff ff ff\<close> as \<open>s8W-!\<close>; and for every codec and value, the symbols of a group
  are the alphabet's characters at the indices \<open>(V div P) mod radix\<close>, for the powers
  \<open>P\<close> of the radix from the fourth down to the zeroth.
\<close>

theorem encode_quartet_digits:
  "(\<exists>c. adobe85codec = Inr c \<and>
      encode c (map char_of [0xff, 0xff, 0xff, 0xff :: nat]) = Inr ''s8W-!'') \<and>
   (\<forall>a c V. Base8xCodec a = Inr c \<longrightarrow>
      encode_quartet c V =
        Inr (map (\<lambda>P. alphabet c ! ((V div P) mod radix c))
          [radix c ^ 4, radix c ^ 3, radix c ^ 2, radix c ^ 1, radix c ^ 0]))"
proof (intro conjI allI impI)
  show "\<exists>c. adobe85codec = Inr c \<and>
      encode c (map char_of [0xff, 0xff, 0xff, 0xff :: nat]) = Inr ''s8W-!''"
    unfolding adobe85codec_eq
    by (simp add: encode_Quartet encode_Nil encode_quartet_init [OF adobe85_alphabet_length]
        adobe85_alphabet_nth adobe85_chars)
next
  fix a c V
  assume v: "Base8xCodec a = Inr c"
  show "encode_quartet c V =
        Inr (map (\<lambda>P. alphabet c ! ((V div P) mod radix c))
          [radix c ^ 4, radix c ^ 3, radix c ^ 2, radix c ^ 1, radix c ^ 0])"
    using encode_quartet_valid [OF v refl, of V] valid_codecD(5,6) [OF v] by simp
qed

theorem encode_quartet_digits_witness:
  "Base8xCodec adobe85_alphabet = Inr (init_fields adobe85_alphabet) \<and>
   encode_quartet (init_fields adobe85_alphabet) 4294967295 = Inr ''s8W-!''"
proof -
  have "encode_quartet (init_fields adobe85_alphabet) 4294967295 =
        Inr (map (\<lambda>P. alphabet (init_fields adobe85_alphabet) !
                  ((4294967295 div P) mod radix (init_fields adobe85_alphabet)))
          [radix (init_fields adobe85_alphabet) ^ 4, radix (init_fields adobe85_alphabet) ^ 3,
           radix (init_fields adobe85_alphabet) ^ 2, radix (init_fields adobe85_alphabet) ^ 1,
           radix (init_fields adobe85_alphabet) ^ 0])"
    using encode_quartet_digits adobe85_valid by blast
  then show ?thesis
    using adobe85_valid
    by (simp add: init_fields_simps adobe85_alphabet_length adobe85_alphabet_nth adobe85_chars)
qed

subsection \<open>C8: a character outside the alphabet\<close>

text \<open>
  Claim C8. Let a text consist of groups of five characters that all decode, followed by a
  rest whose first group holds, at position \<open>j\<close>, its first character that is not in
  the alphabet. Then \<open>decode\<close> returns no bytes at all but the illegal-character error,
  which carries that group (padded, if it is the short last one), the character, its code
  point and the position \<open>j\<close> in the group.
\<close>

theorem decode_illegal_character:
  assumes "Base8xCodec a = Inr c"
    and "length pre mod 5 = 0" and "decode c pre = Inr bs"
    and "j < 5" and "j < length rest"
    and "rest ! j \<notin> set (alphabet c)" and "\<forall>k<j. rest ! k \<in> set (alphabet c)"
  shows "decode c (pre @ rest) =
     Inl (IllegalCharacter (take 5 (rest @ replicate 4 (last (alphabet c))))
            (rest ! j) (of_char (rest ! j)) j)"
  using decode_append [OF valid_codecD(9) [OF assms(1)] assms(2), of rest] assms(3)
    decode_first_group_illegal [OF assms(1,4,5), unfolded valid_codecD(5) [OF assms(1), symmetric], OF assms(6,7)]
  by simp

theorem decode_illegal_character_witness:
  "Base8xCodec z85_alphabet = Inr (init_fields z85_alphabet) \<and>
   decode (init_fields z85_alphabet) ''Hello'' = Inr (map char_of [0x86, 0x4f, 0xd2, 0x6f :: nat]) \<and>
   decode (init_fields z85_alphabet) ''Hello World'' =
     Inl (IllegalCharacter '' Worl'' CHR '' '' 32 0)"
proof -
  note pre = z85_decode_Hello
  have notin: "'' World'' ! 0 \<notin> set (alphabet (init_fields z85_alphabet))"
    by (simp add: init_fields_simps z85_alphabet_def)
  have "decode (init_fields z85_alphabet) (''Hello'' @ '' World'') =
     Inl (IllegalCharacter (take 5 ('' World'' @ replicate 4 (last (alphabet (init_fields z85_alphabet)))))
            ('' World'' ! 0) (of_char ('' World'' ! 0)) 0)"
    using notin by (intro decode_illegal_character [OF z85_valid _ pre]) simp_all
  then show ?thesis
    using z85_valid pre by simp
qed

subsection \<open>C9: the encoded text stays in the alphabet\<close>

text \<open>
  Claim C9. For every codec that the constructor returns and every byte sequence,
  \<open>encode\<close> raises nothing and every character of its text is in the alphabet; the
  index \<open>(V div P) mod radix\<close> into the alphabet is always below the alphabet's length.
\<close>

theorem encode_output_in_alphabet:
  assumes "Base8xCodec a = Inr c"
  shows "(\<exists>t. encode c x = Inr t \<and> set t \<subseteq> set (alphabet c)) \<and>
    (V div P) mod radix c < length (alphabet c)"
proof -
  note v = valid_codecD [OF assms]
  have "(V div P) mod radix c < length (alphabet c)"
    using v(7) by (simp add: v(5,6))
  then show ?thesis
    using encode_valid_shape [OF assms, of x] by (auto simp: v(5))
qed

theorem encode_output_in_alphabet_witness:
  "Base8xCodec z85_alphabet = Inr (init_fields z85_alphabet) \<and>
   encode (init_fields z85_alphabet) ''abcdefg'' = Inr ''vpA.SwObM'' \<and>
   set ''vpA.SwObM'' \<subseteq> set (alphabet (init_fields z85_alphabet))"
  using encode_output_in_alphabet [OF z85_valid, of "''abcdefg''"] z85_valid z85_encode_abcdefg
  by simp

subsection \<open>C10: a trailing group of one character\<close>

text \<open>
  Claim C10. \<open>encode\<close> never returns a text whose length is 1 modulo 5, yet \<open>decode\<close>
  accepts such texts: if the character at position \<open>p\<close> of the alphabet satisfies
  \<open>p * r\<^sup>4 + (r - 1) * (r\<^sup>3 + r\<^sup>2 + r + 1) \<le> 2\<^sup>3\<^sup>2 - 1\<close> for the radix \<open>r\<close>, then the text
  of that one character decodes to the empty byte sequence, and every text of length 1
  modulo 5 that ends with that character decodes to what the text without it decodes to.
\<close>

theorem decode_single_trailing_character:
  assumes "Base8xCodec a = Inr c" and "p < radix c"
    and "p * radix c ^ 4 + (radix c - 1) * (radix c ^ 3 + (radix c)\<^sup>2 + radix c + 1) \<le> 2 ^ 32 - 1"
  shows "decode c [alphabet c ! p] = Inr [] \<and>
    (\<forall>text. length text mod 5 = 1 \<and> last text = alphabet c ! p \<longrightarrow>
       decode c text = decode c (butlast text)) \<and>
    (\<forall>x t. encode c x = Inr t \<longrightarrow> length t mod 5 \<noteq> 1)"
proof -
  note v = valid_codecD [OF assms(1)]
  have single: "decode c [alphabet c ! p] = Inr []"
    using decode_single_character [OF assms(1)] assms(2,3) by (simp add: v(5,6))
  have trailing: "decode c s = decode c (butlast s)"
    if len: "length s mod 5 = 1" and l: "last s = alphabet c ! p" for s
  proof -
    have ne: "s \<noteq> []" using len by auto
    then have eq: "s = butlast s @ [alphabet c ! p]"
      using l append_butlast_last_id [of s] by simp
    have "length s = length (butlast s) + 1" using ne by simp
    then have "length (butlast s) mod 5 = 0" using len by presburger
    then have step: "decode c (butlast s @ [alphabet c ! p]) = decode c (butlast s)"
      using decode_append [OF v(9), of "butlast s" "[alphabet c ! p]"] single
      by (simp split: sum.splits)
    have "decode c s = decode c (butlast s @ [alphabet c ! p])"
      using eq by (rule arg_cong)
    also note step
    finally show ?thesis .
  qed
  have never: "length t mod 5 \<noteq> 1" if enc: "encode c x = Inr t" for x t
  proof -
    have len: "length t = 5 * (length x div 4) + (if length x mod 4 = 0 then 0 else length x mod 4 + 1)"
      using encode_valid_shape [OF assms(1), of x] enc by auto
    have m: "length x mod 4 = 0 \<or> length x mod 4 = 1 \<or> length x mod 4 = 2 \<or> length x mod 4 = 3"
      by arith
    have "length t mod 5 = (if length x mod 4 = 0 then 0 else length x mod 4 + 1) mod 5"
      unfolding len by (simp only: mod_mult_self4)
    then show ?thesis using m by auto
  qed
  show ?thesis using single trailing never by blast
qed

theorem decode_single_trailing_character_witness:
  "Base8xCodec adobe85_alphabet = Inr (init_fields adobe85_alphabet) \<and>
   decode (init_fields adobe85_alphabet) ''!'' = Inr [] \<and>
   decode (init_fields adobe85_alphabet) ''s8W-!!'' = decode (init_fields adobe85_alphabet) ''s8W-!''"
proof -
  have r: "radix (init_fields adobe85_alphabet) = 85"
    by (simp add: init_fields_simps adobe85_alphabet_length)
  have p: "alphabet (init_fields adobe85_alphabet) ! 0 = CHR ''!''"
    using adobe85_alphabet_nth [of 0] by (simp add: init_fields_simps adobe85_chars)
  have "decode (init_fields adobe85_alphabet) [alphabet (init_fields adobe85_alphabet) ! 0] = Inr [] \<and>
    (\<forall>text. length text mod 5 = 1 \<and> last text = alphabet (init_fields adobe85_alphabet) ! 0 \<longrightarrow>
       decode (init_fields adobe85_alphabet) text = decode (init_fields adobe85_alphabet) (butlast text)) \<and>
    (\<forall>x t. encode (init_fields adobe85_alphabet) x = Inr t \<longrightarrow> length t mod 5 \<noteq> 1)"
    by (rule decode_single_trailing_character [OF adobe85_valid]) (simp_all add: r)
  then have "decode (init_fields adobe85_alphabet) ''!'' = Inr []"
    and "length ''s8W-!!'' mod 5 = 1 \<and> last ''s8W-!!'' = CHR ''!'' \<longrightarrow>
       decode (init_fields adobe85_alphabet) ''s8W-!!'' =
       decode (init_fields adobe85_alphabet) (butlast ''s8W-!!'')"
    unfolding p by blast+
  then show ?thesis
    using adobe85_valid by simp
qed

end
